theory Spec2Isabelle
  imports Main "HOL-Library.Char_ord" "HOL-Library.List_Lexorder" "HOL-Library.Sublist"
begin

section \<open>Strings, errors and the library functions the program calls\<close>

text \<open>
  A Python \<open>str\<close> is modelled as a \<open>string\<close>: each \<open>char\<close> stands for the code point
  of the same number, so the model covers the strings whose code points are below 256.
  Comparison of strings is Python's: lexicographic by code point.

  An exception is a value of \<open>error\<close>; a function that can raise returns
  \<open>error + 'a\<close> with \<open>Inl\<close> for the exception.
\<close>

datatype error = ValueError | IndexError | FileNotFoundError

definition slash :: char where
  "slash = CHR ''/''"

definition c0_control_or_space :: "char \<Rightarrow> bool" where
  \<comment> \<open>the characters of \<open>_WHATWG_C0_CONTROL_OR_SPACE\<close>: code points 0 to 32\<close>
  "c0_control_or_space c \<longleftrightarrow> (of_char c :: nat) \<le> 32"

definition unsafe_url_byte :: "char \<Rightarrow> bool" where
  \<comment> \<open>\<open>_UNSAFE_URL_BYTES_TO_REMOVE\<close>: tab, carriage return, line feed\<close>
  "unsafe_url_byte c \<longleftrightarrow> c = CHR 0x09 \<or> c = CHR 0x0D \<or> c = CHR 0x0A"

definition isspace :: "char \<Rightarrow> bool" where
  \<comment> \<open>\<open>str.isspace\<close> on the code points below 256: 9-13, 28-32, 133 and 160\<close>
  "isspace c \<longleftrightarrow>
     (let n = (of_char c :: nat)
      in (9 \<le> n \<and> n \<le> 13) \<or> (28 \<le> n \<and> n \<le> 32) \<or> n = 133 \<or> n = 160)"

definition rstrip :: "string \<Rightarrow> string" where
  \<comment> \<open>\<open>str.rstrip()\<close>: drop the trailing whitespace\<close>
  "rstrip s = rev (dropWhile isspace (rev s))"

fun split_on :: "char \<Rightarrow> string \<Rightarrow> string list" where
  \<comment> \<open>\<open>s.split(sep)\<close> for a separator of one character; never the empty list\<close>
  "split_on sep [] = [[]]"
| "split_on sep (x # xs) =
     (if x = sep then [] # split_on sep xs
      else (case split_on sep xs of
              [] \<Rightarrow> [[x]]
            | w # ws \<Rightarrow> (x # w) # ws))"

definition scheme_chars :: string where
  "scheme_chars = ''abcdefghijklmnopqrstuvwxyzABCDEFGHIJKLMNOPQRSTUVWXYZ0123456789+-.''"

definition ascii_alpha :: "char \<Rightarrow> bool" where
  \<comment> \<open>\<open>c.isascii() and c.isalpha()\<close>\<close>
  "ascii_alpha c \<longleftrightarrow> c \<in> set ''abcdefghijklmnopqrstuvwxyzABCDEFGHIJKLMNOPQRSTUVWXYZ''"

definition ascii_lower :: "char \<Rightarrow> char" where
  \<comment> \<open>\<open>str.lower\<close> on the characters of \<open>scheme_chars\<close>, the only ones it is applied to\<close>
  "ascii_lower c =
     (if CHR ''A'' \<le> c \<and> c \<le> CHR ''Z'' then char_of ((of_char c :: nat) + 32) else c)"

subsection \<open>\<open>urllib.parse.urlsplit\<close>\<close>

record split_result =
  scheme :: string
  netloc :: string
  path :: string
  query :: string
  fragment :: string

definition split_scheme :: "string \<Rightarrow> string \<times> string" where
  \<comment> \<open>\<open>i = url.find(':')\<close>; the scheme is \<open>url[:i].lower()\<close> when \<open>i > 0\<close>, the first
      character is an ASCII letter and \<open>url[:i]\<close> has scheme characters only\<close>
  "split_scheme url =
     (let pre = takeWhile (\<lambda>c. c \<noteq> CHR '':'') url
      in if CHR '':'' \<in> set url \<and> pre \<noteq> [] \<and> ascii_alpha (hd url)
            \<and> list_all (\<lambda>c. c \<in> set scheme_chars) pre
         then (map ascii_lower pre, drop (Suc (length pre)) url)
         else ([], url))"

definition netloc_delim :: "char \<Rightarrow> bool" where
  "netloc_delim c \<longleftrightarrow> c = CHR ''/'' \<or> c = CHR ''?'' \<or> c = CHR ''#''"

definition splitnetloc :: "string \<Rightarrow> string \<times> string" where
  \<comment> \<open>\<open>_splitnetloc(url, 2)\<close>: the authority runs from index 2 to the first of \<open>/ ? #\<close>\<close>
  "splitnetloc url =
     (let rest = drop 2 url
      in (takeWhile (\<lambda>c. \<not> netloc_delim c) rest, dropWhile (\<lambda>c. \<not> netloc_delim c) rest))"

definition partition1 :: "char \<Rightarrow> string \<Rightarrow> string \<times> string" where
  \<comment> \<open>\<open>if c in s: s, rest = s.split(c, 1)\<close>, and \<open>rest\<close> stays empty otherwise\<close>
  "partition1 c s =
     (if c \<in> set s then (takeWhile (\<lambda>x. x \<noteq> c) s, drop 1 (dropWhile (\<lambda>x. x \<noteq> c) s))
      else (s, []))"

definition unbalanced_brackets :: "string \<Rightarrow> bool" where
  "unbalanced_brackets nl \<longleftrightarrow>
     (if CHR ''['' \<in> set nl then CHR '']'' \<notin> set nl else CHR '']'' \<in> set nl)"

definition has_brackets :: "string \<Rightarrow> bool" where
  "has_brackets nl \<longleftrightarrow> CHR ''['' \<in> set nl \<and> CHR '']'' \<in> set nl"

definition clean_url :: "string \<Rightarrow> string" where
  \<comment> \<open>\<open>url.lstrip(_WHATWG_C0_CONTROL_OR_SPACE)\<close>, then the unsafe bytes removed\<close>
  "clean_url url = filter (\<lambda>c. \<not> unsafe_url_byte c) (dropWhile c0_control_or_space url)"

definition authority :: "string \<Rightarrow> string \<times> string" where
  \<comment> \<open>\<open>if url[:2] == '//': netloc, url = _splitnetloc(url, 2)\<close>\<close>
  "authority url = (if take 2 url = ''//'' then splitnetloc url else ([], url))"

text \<open>
  \<open>urlsplit chk url\<close> follows the library function (CPython 3.12, \<open>urllib/parse.py\<close>, with
  its default arguments) step by step. The parameter \<open>chk\<close>
  stands for \<open>_check_bracketed_netloc\<close> (the validation of an authority that holds a
  bracketed host through the \<open>ipaddress\<close> module, not modelled): \<open>chk nl\<close> is true when the
  library accepts the authority \<open>nl\<close>. The NFKC check \<open>_checknetloc\<close> never rejects a
  string of code points below 256, so it has no branch here.
\<close>

definition urlsplit :: "(string \<Rightarrow> bool) \<Rightarrow> string \<Rightarrow> error + split_result" where
  "urlsplit chk url0 =
     (let (sch, url2) = split_scheme (clean_url url0);
          (nl, url3) = authority url2
      in if unbalanced_brackets nl then Inl ValueError
         else if has_brackets nl \<and> \<not> chk nl then Inl ValueError
         else
           (let (url4, frag) = partition1 (CHR ''#'') url3;
                (url5, qry) = partition1 (CHR ''?'') url4
            in Inr \<lparr>scheme = sch, netloc = nl, path = url5, query = qry, fragment = frag\<rparr>))"

definition url_rest :: "string \<Rightarrow> string" where
  \<comment> \<open>what is left of the URL after its scheme and authority\<close>
  "url_rest u = snd (authority (snd (split_scheme (clean_url u))))"

definition accept_any :: "string \<Rightarrow> bool" where
  \<comment> \<open>an instance of the parameter \<open>chk\<close> that accepts every bracketed host\<close>
  "accept_any nl = True"

subsection \<open>\<open>pathlib\<close> and \<open>os.path\<close> on POSIX\<close>

definition path_parts :: "string \<Rightarrow> string list" where
  \<comment> \<open>the components of a path: the pieces between slashes, without the empty ones and
      without \<open>.\<close>\<close>
  "path_parts p = filter (\<lambda>c. c \<noteq> [] \<and> c \<noteq> ''.'') (split_on slash p)"

definition path_root :: "string \<Rightarrow> string" where
  \<comment> \<open>\<open>splitroot\<close>: exactly two leading slashes are kept, any other number is one\<close>
  "path_root p =
     (if take 1 p = ''/'' then
        (if length (takeWhile (\<lambda>c. c = slash) p) = 2 then ''//'' else ''/'')
      else [])"

fun join :: "string list \<Rightarrow> string" where
  \<comment> \<open>\<open>'/'.join(parts)\<close>\<close>
  "join [] = []"
| "join [c] = c"
| "join (c # d # cs) = c @ ''/'' @ join (d # cs)"

definition path_str :: "string \<Rightarrow> string list \<Rightarrow> string" where
  \<comment> \<open>\<open>str\<close> of a path with the given root and components; the empty path prints as \<open>.\<close>\<close>
  "path_str root parts = (if root = [] \<and> parts = [] then ''.'' else root @ join parts)"

definition parent0 :: "string \<Rightarrow> error + string" where
  \<comment> \<open>\<open>str(Path(p).parents[0])\<close>; a path without components has no parent\<close>
  "parent0 p =
     (if path_parts p = [] then Inl IndexError
      else Inr (path_str (path_root p) (butlast (path_parts p))))"

fun common_prefix :: "string list \<Rightarrow> string list \<Rightarrow> string list" where
  \<comment> \<open>the loop of \<open>commonpath\<close>: the part of \<open>s1\<close> before the first index where it
      differs from \<open>s2\<close>\<close>
  "common_prefix (c # s1) (d # s2) = (if c = d then c # common_prefix s1 s2 else [])"
| "common_prefix s1 s2 = []"

definition commonpath :: "string \<Rightarrow> string \<Rightarrow> error + string" where
  \<comment> \<open>\<open>os.path.commonpath([a, b])\<close>, the only way the program calls it\<close>
  "commonpath a b =
     (if (take 1 a = ''/'') \<noteq> (take 1 b = ''/'') then Inl ValueError
      else
        (let sa = path_parts a; sb = path_parts b;
             s1 = min sa sb; s2 = max sa sb
         in Inr ((if take 1 a = ''/'' then ''/'' else []) @ join (common_prefix s1 s2))))"

section \<open>The Path Normalizer: \<open>fix_dir_url\<close>\<close>

definition fix_dir_url :: "(string \<Rightarrow> bool) \<Rightarrow> string \<Rightarrow> error + string" where
  "fix_dir_url chk in_url =
     (case urlsplit chk in_url of
        Inl e \<Rightarrow> Inl e
      | Inr runtime_url \<Rightarrow>
          if scheme runtime_url = ''dir'' then
            (let new_url = ''file://'' @ netloc runtime_url @ path runtime_url
             in Inr (if last new_url \<noteq> CHR ''/'' then new_url @ ''/'' else new_url))
          else Inr in_url)"

section \<open>The Log Parser: \<open>process_accessed_files\<close>\<close>

text \<open>
  The provenance log is the list of its lines, each as the file iterator yields it
  (with its line terminator). The two Python sets are HOL sets.
\<close>

definition file_record :: "string \<Rightarrow> string list" where
  \<comment> \<open>\<open>line.rstrip().split(" ")\<close>\<close>
  "file_record line = split_on (CHR '' '') (rstrip line)"

fun process_line :: "string set \<times> string set \<Rightarrow> string \<Rightarrow> string set \<times> string set" where
  "process_line (inputs, outputs) line =
     (case file_record line of
        [uri, tok] \<Rightarrow>
          if tok = ''IN'' \<or> tok = ''IN_DELETE'' then
            (if uri \<notin> outputs then (insert uri inputs, outputs) else (inputs, outputs))
          else if tok = ''OUT'' then (inputs, insert uri outputs)
          else
            ((if uri \<notin> outputs then insert uri inputs else inputs), insert uri outputs)
      | _ \<Rightarrow> (inputs, outputs))"

definition read_log :: "string list \<Rightarrow> string set \<times> string set" where
  \<comment> \<open>the loop over the lines of the log, from two empty sets\<close>
  "read_log log_lines = foldl process_line ({}, {}) log_lines"

text \<open>
  The loop that rewrites the \<open>dir://\<close> references appends to the list and removes from it
  while it iterates over it. Python's list iterator holds an index: each round reads
  \<open>data_list[idx]\<close> if \<open>idx\<close> is below the current length, and stops otherwise.
  \<open>remove1\<close> is \<open>list.remove\<close>: it deletes the first equal element.
\<close>

function fix_dir_refs ::
  "(string \<Rightarrow> bool) \<Rightarrow> string \<Rightarrow> nat \<Rightarrow> string list \<Rightarrow> error + string list" where
  "fix_dir_refs chk hostname idx data_list =
     (if idx < length data_list then
        (case urlsplit chk (data_list ! idx) of
           Inl e \<Rightarrow> Inl e
         | Inr url_parts \<Rightarrow>
             if scheme url_parts = ''dir'' then
               fix_dir_refs chk hostname (Suc idx)
                 (remove1 (data_list ! idx)
                    (data_list @ [''dir://'' @ hostname @ path url_parts @ ''/'']))
             else Inr data_list)
      else Inr data_list)"
  by pat_completeness auto
termination
proof (relation "measure (\<lambda>(chk, hostname, idx, data_list). length data_list - idx)")
  show "wf (measure (\<lambda>(chk, hostname, idx, data_list). length data_list - idx))"
    by simp
next
  fix chk :: "string \<Rightarrow> bool" and hostname :: string and idx :: nat
    and data_list :: "string list" and url_parts :: split_result
  assume i: "idx < length data_list"
  let ?new = "''dir://'' @ hostname @ path url_parts @ ''/''"
  have "data_list ! idx \<in> set (data_list @ [?new])"
    using i by simp
  then have "length (remove1 (data_list ! idx) (data_list @ [?new])) = length data_list"
    by (simp add: length_remove1)
  with i show "((chk, hostname, Suc idx,
                 remove1 (data_list ! idx) (data_list @ [?new])),
                (chk, hostname, idx, data_list))
               \<in> measure (\<lambda>(chk, hostname, idx, data_list). length data_list - idx)"
    by simp
qed

definition fix_and_sort :: "(string \<Rightarrow> bool) \<Rightarrow> string \<Rightarrow> string list \<Rightarrow> error + string list" where
  \<comment> \<open>one round of \<open>for data_list in [l_ins, l_outs]\<close>: the rewriting loop, then
      \<open>data_list.sort()\<close>\<close>
  "fix_and_sort chk hostname data_list =
     (case fix_dir_refs chk hostname 0 data_list of
        Inl e \<Rightarrow> Inl e
      | Inr l \<Rightarrow> Inr (sort l))"

text \<open>
  \<open>process_accessed_files chk hostname log_lines\<close>: \<open>hostname\<close> is what
  \<open>socket.gethostname()\<close> returns, \<open>log_lines\<close> the lines of \<open>DP_LOG\<close>.
\<close>

definition process_accessed_files ::
  "(string \<Rightarrow> bool) \<Rightarrow> string \<Rightarrow> string list \<Rightarrow> error + (string list \<times> string list)" where
  "process_accessed_files chk hostname log_lines =
     (case read_log log_lines of
        (inputs, outputs) \<Rightarrow>
          (case fix_and_sort chk hostname (sorted_list_of_set inputs) of
             Inl e \<Rightarrow> Inl e
           | Inr l_ins \<Rightarrow>
               (case fix_and_sort chk hostname (sorted_list_of_set outputs) of
                  Inl e \<Rightarrow> Inl e
                | Inr l_outs \<Rightarrow> Inr (l_ins, l_outs))))"

section \<open>The Common-Path Resolver: \<open>get_common_paths\<close>\<close>

definition append_new :: "string \<Rightarrow> string list \<Rightarrow> string list" where
  \<comment> \<open>\<open>if x not in l: l.append(x)\<close>\<close>
  "append_new x l = (if x \<notin> set l then l @ [x] else l)"

fun leading_dirs ::
  "(string \<Rightarrow> bool) \<Rightarrow> string list \<Rightarrow> string list \<Rightarrow> error + (string list \<times> string list)" where
  \<comment> \<open>the first loop: the paths of the \<open>dir\<close> items at the head of the list, and the list
      from the first other item on (empty when \<open>file_found\<close> stays false)\<close>
  "leading_dirs chk [] list_common_paths = Inr (list_common_paths, [])"
| "leading_dirs chk (item # rest) list_common_paths =
     (case urlsplit chk item of
        Inl e \<Rightarrow> Inl e
      | Inr url_parts \<Rightarrow>
          if scheme url_parts = ''dir'' then
            leading_dirs chk rest (append_new (path url_parts) list_common_paths)
          else Inr (list_common_paths, item # rest))"

fun common_loop ::
  "(string \<Rightarrow> bool) \<Rightarrow> string list \<Rightarrow> string \<Rightarrow> string list \<Rightarrow> error + (string \<times> string list)" where
  \<comment> \<open>the loop over \<open>url_files_list\<close>, with \<open>common_path\<close> and \<open>list_common_paths\<close>\<close>
  "common_loop chk [] common_path list_common_paths = Inr (common_path, list_common_paths)"
| "common_loop chk (item # rest) common_path list_common_paths =
     (case urlsplit chk item of
        Inl e \<Rightarrow> Inl e
      | Inr url_parts \<Rightarrow>
          (case commonpath (path url_parts) common_path of
             Inl e \<Rightarrow> Inl e
           | Inr tmp \<Rightarrow>
               if tmp \<noteq> ''/'' then common_loop chk rest tmp list_common_paths
               else
                 (case parent0 (path url_parts) of
                    Inl e \<Rightarrow> Inl e
                  | Inr parent \<Rightarrow>
                      common_loop chk rest parent (append_new common_path list_common_paths))))"

function end_with_slash :: "nat \<Rightarrow> string list \<Rightarrow> error + string list" where
  \<comment> \<open>the last loop, which appends to and removes from the list it iterates over;
      \<open>item[-1]\<close> of the empty string raises\<close>
  "end_with_slash idx list_common_paths =
     (if idx < length list_common_paths then
        (if list_common_paths ! idx = [] then Inl IndexError
         else if last (list_common_paths ! idx) \<noteq> CHR ''/'' then
           end_with_slash (Suc idx)
             (remove1 (list_common_paths ! idx)
                (list_common_paths @ [list_common_paths ! idx @ ''/'']))
         else end_with_slash (Suc idx) list_common_paths)
      else Inr list_common_paths)"
  by pat_completeness auto
termination
proof (relation "measure (\<lambda>(idx, l). length l - idx)")
  show "wf (measure (\<lambda>(idx, l). length l - idx))"
    by simp
next
  fix idx :: nat and l :: "string list"
  assume i: "idx < length l"
  have "l ! idx \<in> set (l @ [l ! idx @ ''/''])"
    using i by simp
  then have "length (remove1 (l ! idx) (l @ [l ! idx @ ''/''])) = length l"
    by (simp add: length_remove1)
  with i show "((Suc idx, remove1 (l ! idx) (l @ [l ! idx @ ''/''])), (idx, l))
               \<in> measure (\<lambda>(idx, l). length l - idx)"
    by simp
next
  fix idx :: nat and l :: "string list"
  assume "idx < length l"
  then show "((Suc idx, l), (idx, l)) \<in> measure (\<lambda>(idx, l). length l - idx)"
    by simp
qed

definition get_common_paths :: "(string \<Rightarrow> bool) \<Rightarrow> string list \<Rightarrow> error + string list" where
  "get_common_paths chk url_list =
     (if url_list = [] then Inr []
      else
        (case leading_dirs chk url_list [] of
           Inl e \<Rightarrow> Inl e
         | Inr (list_common_paths, []) \<Rightarrow> Inr list_common_paths
         | Inr (list_common_paths, first_file # url_files_list) \<Rightarrow>
             (case urlsplit chk first_file of
                Inl e \<Rightarrow> Inl e
              | Inr url_parts \<Rightarrow>
                  (case parent0 (path url_parts) of
                     Inl e \<Rightarrow> Inl e
                   | Inr common_path \<Rightarrow>
                       (case common_loop chk url_files_list common_path list_common_paths of
                          Inl e \<Rightarrow> Inl e
                        | Inr (last_path, paths) \<Rightarrow>
                            end_with_slash 0 (append_new last_path paths))))))"

section \<open>The Dataset Reconciler: \<open>add_manual_datasets\<close> and \<open>fix_in_files_at_out_dirs\<close>\<close>

text \<open>
  The file system is a parameter: \<open>probe item\<close> is what the probes of a declared path
  find, with the resolved absolute path of an existing one.
\<close>

datatype fs_entry = Missing | Regular string | Directory string | Special string

fun add_declared ::
  "(string \<Rightarrow> fs_entry) \<Rightarrow> string \<Rightarrow> string list \<Rightarrow> string list \<Rightarrow> error + string list" where
  \<comment> \<open>the loop over \<open>data_entities_list\<close>\<close>
  "add_declared probe hostname [] data_list = Inr data_list"
| "add_declared probe hostname (item # items) data_list =
     (case probe item of
        Missing \<Rightarrow> add_declared probe hostname items data_list
      | Regular resolved \<Rightarrow>
          add_declared probe hostname items
            (append_new (''file://'' @ hostname @ resolved) data_list)
      | Directory resolved \<Rightarrow>
          add_declared probe hostname items
            (append_new (''dir://'' @ hostname @ resolved @ ''/'') data_list)
      | Special resolved \<Rightarrow> Inl FileNotFoundError)"

fun topmost_dirs ::
  "(string \<Rightarrow> bool) \<Rightarrow> string list \<Rightarrow> string list \<Rightarrow> error + (string list \<times> bool)" where
  \<comment> \<open>the loop that fills \<open>directories_list\<close>; the second component is \<open>file_found\<close>\<close>
  "topmost_dirs chk [] directories_list = Inr (directories_list, False)"
| "topmost_dirs chk (item # rest) directories_list =
     (case urlsplit chk item of
        Inl e \<Rightarrow> Inl e
      | Inr url_parts \<Rightarrow>
          if scheme url_parts = ''dir'' then
            topmost_dirs chk rest
              (if path url_parts \<notin> set directories_list
                  \<and> \<not> list_ex (\<lambda>dir_item. prefix dir_item (path url_parts)) directories_list
               then directories_list @ [path url_parts] else directories_list)
          else Inr (directories_list, True))"

definition nested_in :: "string list \<Rightarrow> string \<Rightarrow> bool" where
  \<comment> \<open>\<open>any(p != dir_path and p.startswith(dir_path) for dir_path in directories_list)\<close>\<close>
  "nested_in directories_list p =
     list_ex (\<lambda>dir_path. p \<noteq> dir_path \<and> prefix dir_path p) directories_list"

fun remove_nested ::
  "(string \<Rightarrow> bool) \<Rightarrow> string list \<Rightarrow> string list \<Rightarrow> string list \<Rightarrow> error + string list" where
  \<comment> \<open>the loop over \<open>data_list_copy\<close> that removes from \<open>data_list\<close>\<close>
  "remove_nested chk directories_list [] data_list = Inr data_list"
| "remove_nested chk directories_list (item # rest) data_list =
     (case urlsplit chk item of
        Inl e \<Rightarrow> Inl e
      | Inr url_parts \<Rightarrow>
          remove_nested chk directories_list rest
            (if nested_in directories_list (path url_parts) then remove1 item data_list
             else data_list))"

definition erase_nested :: "(string \<Rightarrow> bool) \<Rightarrow> string list \<Rightarrow> error + string list" where
  \<comment> \<open>the part of \<open>add_manual_datasets\<close> after \<open>data_list.sort()\<close>\<close>
  "erase_nested chk data_list =
     (case topmost_dirs chk data_list [] of
        Inl e \<Rightarrow> Inl e
      | Inr (directories_list, file_found) \<Rightarrow>
          if file_found then remove_nested chk directories_list data_list data_list
          else Inr data_list)"

text \<open>
  \<open>add_manual_datasets chk probe hostname declared data_list\<close>: \<open>declared\<close> is
  \<open>data_entities_list\<close>, the entries of the YAML term.
\<close>

definition add_manual_datasets ::
  "(string \<Rightarrow> bool) \<Rightarrow> (string \<Rightarrow> fs_entry) \<Rightarrow> string \<Rightarrow> string list \<Rightarrow> string list
     \<Rightarrow> error + string list" where
  "add_manual_datasets chk probe hostname declared data_list =
     (case add_declared probe hostname declared data_list of
        Inl e \<Rightarrow> Inl e
      | Inr merged \<Rightarrow> erase_nested chk (sort merged))"

fun out_dirs :: "(string \<Rightarrow> bool) \<Rightarrow> string list \<Rightarrow> string list \<Rightarrow> error + string list" where
  \<comment> \<open>the loop over \<open>outputs_list\<close>, which stops at the first item that is no \<open>dir\<close>\<close>
  "out_dirs chk [] directories_list = Inr directories_list"
| "out_dirs chk (item # rest) directories_list =
     (case urlsplit chk item of
        Inl e \<Rightarrow> Inl e
      | Inr url_parts \<Rightarrow>
          if scheme url_parts = ''dir'' then
            out_dirs chk rest (append_new (path url_parts) directories_list)
          else Inr directories_list)"

fun skip_dirs :: "(string \<Rightarrow> bool) \<Rightarrow> string list \<Rightarrow> error + string list" where
  \<comment> \<open>the loop that counts the \<open>dir\<close> items at the head of \<open>inputs_list\<close>; the result is
      \<open>inputs_list[i:]\<close> when a file is found, and empty otherwise\<close>
  "skip_dirs chk [] = Inr []"
| "skip_dirs chk (item # rest) =
     (case urlsplit chk item of
        Inl e \<Rightarrow> Inl e
      | Inr url_parts \<Rightarrow>
          if scheme url_parts = ''dir'' then skip_dirs chk rest else Inr (item # rest))"

definition under_any :: "string list \<Rightarrow> string \<Rightarrow> bool" where
  \<comment> \<open>\<open>any(p.startswith(dir_path) for dir_path in directories_list)\<close>\<close>
  "under_any directories_list p = list_ex (\<lambda>dir_path. prefix dir_path p) directories_list"

fun remove_inputs ::
  "(string \<Rightarrow> bool) \<Rightarrow> string list \<Rightarrow> string list \<Rightarrow> string list \<Rightarrow> error + string list" where
  \<comment> \<open>the loop over the slice \<open>url_files_list\<close> that removes from \<open>inputs_list\<close>\<close>
  "remove_inputs chk directories_list [] inputs_list = Inr inputs_list"
| "remove_inputs chk directories_list (item # rest) inputs_list =
     (case urlsplit chk item of
        Inl e \<Rightarrow> Inl e
      | Inr url_parts \<Rightarrow>
          remove_inputs chk directories_list rest
            (if under_any directories_list (path url_parts) then remove1 item inputs_list
             else inputs_list))"

text \<open>
  The two arguments are different list objects in the program (\<open>main\<close> passes the two lists
  it got from \<open>process_accessed_files\<close> and \<open>add_manual_datasets\<close>), so the lists are values
  here.
\<close>

definition fix_in_files_at_out_dirs ::
  "(string \<Rightarrow> bool) \<Rightarrow> string list \<Rightarrow> string list \<Rightarrow> error + (string list \<times> string list)" where
  "fix_in_files_at_out_dirs chk inputs_list outputs_list =
     (case out_dirs chk outputs_list [] of
        Inl e \<Rightarrow> Inl e
      | Inr directories_list \<Rightarrow>
          (case skip_dirs chk inputs_list of
             Inl e \<Rightarrow> Inl e
           | Inr url_files_list \<Rightarrow>
               if url_files_list = [] then Inr (inputs_list, outputs_list)
               else
                 (case remove_inputs chk directories_list url_files_list inputs_list of
                    Inl e \<Rightarrow> Inl e
                  | Inr ins \<Rightarrow> Inr (ins, outputs_list))))"

section \<open>The notions the claims speak of\<close>

definition is_dir :: "(string \<Rightarrow> bool) \<Rightarrow> string \<Rightarrow> bool" where
  \<comment> \<open>the item parses and its scheme is \<open>dir\<close>\<close>
  "is_dir chk item = (case urlsplit chk item of Inl e \<Rightarrow> False | Inr r \<Rightarrow> scheme r = ''dir'')"

definition url_path :: "(string \<Rightarrow> bool) \<Rightarrow> string \<Rightarrow> string" where
  \<comment> \<open>the path component of an item that parses\<close>
  "url_path chk item = (case urlsplit chk item of Inl e \<Rightarrow> [] | Inr r \<Rightarrow> path r)"


definition nested_entry :: "(string \<Rightarrow> bool) \<Rightarrow> string list \<Rightarrow> string \<Rightarrow> bool" where
  \<comment> \<open>the path of \<open>item\<close> is a strict extension of one of the collected prefixes\<close>
  "nested_entry chk directories_list item = nested_in directories_list (url_path chk item)"

definition leading_dir_paths :: "(string \<Rightarrow> bool) \<Rightarrow> string list \<Rightarrow> string list" where
  \<comment> \<open>the paths of the \<open>dir\<close> items that stand before the first other item\<close>
  "leading_dir_paths chk data_list = map (url_path chk) (takeWhile (is_dir chk) data_list)"

definition nothing_declared :: "string \<Rightarrow> fs_entry" where
  \<comment> \<open>a file system on which no declared path exists\<close>
  "nothing_declared item = Missing"

definition log_records :: "string list \<Rightarrow> (string \<times> string) list" where
  \<comment> \<open>the records of a log, in order: the lines with exactly two fields, as pairs of
      URI and direction token\<close>
  "log_records log_lines =
     concat (map (\<lambda>line. case file_record line of [uri, tok] \<Rightarrow> [(uri, tok)] | _ \<Rightarrow> [])
               log_lines)"

definition first_token :: "string list \<Rightarrow> string \<Rightarrow> string option" where
  \<comment> \<open>the direction token of the first record of a URI, if the log has one\<close>
  "first_token log_lines uri = map_of (log_records log_lines) uri"

definition written :: "string list \<Rightarrow> string \<Rightarrow> bool" where
  \<comment> \<open>some record of the URI has a token other than \<open>IN\<close> and \<open>IN_DELETE\<close>\<close>
  "written log_lines uri =
     list_ex (\<lambda>(u, tok). u = uri \<and> tok \<noteq> ''IN'' \<and> tok \<noteq> ''IN_DELETE'')
       (log_records log_lines)"

definition plain_char :: "char \<Rightarrow> bool" where
  \<comment> \<open>a character that is no delimiter of a URL and is not removed by \<open>urlsplit\<close>\<close>
  "plain_char c \<longleftrightarrow> \<not> netloc_delim c \<and> \<not> unsafe_url_byte c"

definition plain_name :: "string \<Rightarrow> bool" where
  \<comment> \<open>a name of a file or directory: not empty, not \<open>.\<close>, of plain characters\<close>
  "plain_name c \<longleftrightarrow> c \<noteq> [] \<and> c \<noteq> ''.'' \<and> list_all plain_char c"

definition plain_host :: "string \<Rightarrow> bool" where
  \<comment> \<open>a host (possibly empty) of plain characters, without brackets\<close>
  "plain_host h \<longleftrightarrow> list_all (\<lambda>c. plain_char c \<and> c \<noteq> CHR ''['' \<and> c \<noteq> CHR '']'') h"

definition dir_path :: "string list \<Rightarrow> string" where
  \<comment> \<open>the absolute path of the directory with the given components, without a trailing
      separator; the root is the empty string\<close>
  "dir_path comps = concat (map (\<lambda>c. ''/'' @ c) comps)"

definition the_dir :: "string list \<Rightarrow> string" where
  \<comment> \<open>the directory as \<open>pathlib\<close> prints it: the root is \<open>/\<close>\<close>
  "the_dir comps = (if comps = [] then ''/'' else dir_path comps)"

definition file_url :: "string list \<Rightarrow> string \<times> string \<Rightarrow> string" where
  \<comment> \<open>the \<open>file\<close> URL of the file \<open>name\<close> in the directory \<open>comps\<close> on \<open>host\<close>\<close>
  "file_url comps = (\<lambda>(host, name). ''file://'' @ host @ dir_path comps @ ''/'' @ name)"

definition plain_file :: "string \<times> string \<Rightarrow> bool" where
  "plain_file = (\<lambda>(host, name). plain_host host \<and> plain_name name)"

definition no_bracket :: "char \<Rightarrow> bool" where
  "no_bracket c \<longleftrightarrow> c \<noteq> CHR ''['' \<and> c \<noteq> CHR '']''"

definition uri_string :: "(string \<Rightarrow> bool) \<Rightarrow> string \<Rightarrow> bool" where
  \<comment> \<open>the strings that are URIs as far as square brackets go: a URI has them in its
      authority only (RFC 3986). The condition asks less: a string that parses must have
      an authority, or an absolute path, or a path without square brackets; so the
      runtime's \<open>dir://host/path\<close> and \<open>file://host/path\<close> qualify whatever the file
      names are\<close>
  "uri_string chk u =
     (case urlsplit chk u of
        Inl e \<Rightarrow> True
      | Inr r \<Rightarrow> netloc r \<noteq> [] \<or> take 1 (path r) = ''/'' \<or> list_all no_bracket (path r))"

definition dirs_first :: "(string \<Rightarrow> bool) \<Rightarrow> string list \<Rightarrow> bool" where
  \<comment> \<open>the \<open>dir\<close> items stand before all other items, as in the sorted lists of
      \<open>dir://\<close> and \<open>file://\<close> URLs that \<open>main\<close> passes on\<close>
  "dirs_first chk data_list =
     list_all (\<lambda>x. \<not> is_dir chk x) (dropWhile (is_dir chk) data_list)"


section \<open>Facts about \<open>urlsplit\<close>\<close>

lemma takeWhile_absent: "c \<notin> set s \<Longrightarrow> takeWhile (\<lambda>x. x \<noteq> c) s = s"
  by (induction s) auto

lemma fst_partition1: "fst (partition1 c s) = takeWhile (\<lambda>x. x \<noteq> c) s"
  by (simp add: partition1_def takeWhile_absent)

lemma urlsplit_error: "urlsplit chk u = Inl e \<Longrightarrow> e = ValueError"
  by (auto simp: urlsplit_def Let_def split: prod.splits if_splits)

lemma urlsplit_scheme: "urlsplit chk u = Inr r \<Longrightarrow> scheme r = fst (split_scheme (clean_url u))"
  by (auto simp: urlsplit_def Let_def split: prod.splits if_splits)

lemma urlsplit_netloc: "urlsplit chk u = Inr r \<Longrightarrow> netloc r = fst (authority (snd (split_scheme (clean_url u))))"
  by (auto simp: urlsplit_def Let_def split: prod.splits if_splits)

lemma urlsplit_path:
  "urlsplit chk u = Inr r \<Longrightarrow>
     path r = takeWhile (\<lambda>x. x \<noteq> CHR ''?'') (takeWhile (\<lambda>x. x \<noteq> CHR ''#'') (url_rest u))"
  unfolding url_rest_def
  using fst_partition1 [of "CHR ''?''"] fst_partition1 [of "CHR ''#''"]
  by (auto simp: urlsplit_def Let_def split: prod.splits if_splits) (metis fst_conv)+

lemma urlsplit_accepts:
  "urlsplit chk u = Inr r \<Longrightarrow> \<not> unbalanced_brackets (netloc r) \<and> (\<not> has_brackets (netloc r) \<or> chk (netloc r))"
  by (auto simp: urlsplit_def Let_def split: prod.splits if_splits)

lemma urlsplit_succeeds:
  assumes "nl = fst (authority (snd (split_scheme (clean_url u))))"
    and "\<not> unbalanced_brackets nl" and "\<not> has_brackets nl \<or> chk nl"
  shows "\<exists>r. urlsplit chk u = Inr r"
  using assms by (auto simp: urlsplit_def Let_def split: prod.splits if_splits)

lemma split_scheme_subset: "set (snd (split_scheme u)) \<subseteq> set u"
  by (auto simp: split_scheme_def Let_def dest: in_set_dropD)

lemma authority_subset: "set (fst (authority u)) \<subseteq> set u" "set (snd (authority u)) \<subseteq> set u"
  by (auto simp: authority_def splitnetloc_def Let_def dest: in_set_dropD set_takeWhileD set_dropWhileD)

lemma clean_url_safe: "c \<in> set (clean_url u) \<Longrightarrow> \<not> unsafe_url_byte c"
  by (simp add: clean_url_def)

lemma netloc_safe:
  assumes "urlsplit chk u = Inr r" and "c \<in> set (netloc r)"
  shows "\<not> unsafe_url_byte c"
  using assms urlsplit_netloc [OF assms(1)] authority_subset(1) split_scheme_subset clean_url_safe
  by (metis subsetD)

lemma path_safe:
  assumes "urlsplit chk u = Inr r" and "c \<in> set (path r)"
  shows "\<not> unsafe_url_byte c"
proof -
  from assms urlsplit_path [OF assms(1)] have "c \<in> set (url_rest u)"
    by (auto dest!: set_takeWhileD)
  then show ?thesis
    unfolding url_rest_def
    using authority_subset(2) split_scheme_subset clean_url_safe by (metis subsetD)
qed

lemma netloc_no_delim:
  assumes "urlsplit chk u = Inr r" and "c \<in> set (netloc r)"
  shows "\<not> netloc_delim c"
  using assms(2) unfolding urlsplit_netloc [OF assms(1)]
  by (auto simp: authority_def splitnetloc_def Let_def split: if_splits dest: set_takeWhileD)

lemma path_after_netloc:
  assumes "urlsplit chk u = Inr r" and "netloc r \<noteq> []"
  shows "path r = [] \<or> (\<exists>p. path r = CHR ''/'' # p)"
proof -
  define url2 where "url2 = snd (split_scheme (clean_url u))"
  from assms have r: "url_rest u = dropWhile (\<lambda>c. \<not> netloc_delim c) (drop 2 url2)"
    unfolding url_rest_def url2_def urlsplit_netloc [OF assms(1)]
    by (auto simp: authority_def splitnetloc_def Let_def split: if_splits)
  show ?thesis
  proof (cases "url_rest u")
    case Nil
    then show ?thesis using urlsplit_path [OF assms(1)] by simp
  next
    case (Cons a as)
    with r have "netloc_delim a" by (auto simp: dropWhile_eq_Cons_conv dest: sym)
    then show ?thesis using urlsplit_path [OF assms(1)] Cons by (auto simp: netloc_delim_def)
  qed
qed

lemma split_scheme_file: "split_scheme (''file:'' @ s) = (''file'', s)"
  by (simp add: split_scheme_def ascii_alpha_def scheme_chars_def ascii_lower_def)

lemma clean_url_file:
  "\<forall>c\<in>set s. \<not> unsafe_url_byte c \<Longrightarrow> clean_url (''file://'' @ s) = ''file://'' @ s"
  by (simp add: clean_url_def c0_control_or_space_def unsafe_url_byte_def)

lemma urlsplit_file_scheme:
  "urlsplit chk (''file://'' @ s) = Inr r \<Longrightarrow> scheme r = ''file''"
  by (drule urlsplit_scheme)
     (simp add: clean_url_def c0_control_or_space_def unsafe_url_byte_def split_scheme_file [simplified])

lemma takeWhile_stop:
  "\<forall>c\<in>set xs. P c \<Longrightarrow> ys = [] \<or> \<not> P (hd ys) \<Longrightarrow> takeWhile P (xs @ ys) = xs"
  by (induction xs) (auto simp: takeWhile_eq_Nil_iff)

lemma authority_file:
  assumes "\<forall>c\<in>set nl. \<not> netloc_delim c" and "p = [] \<or> (\<exists>q. p = CHR ''/'' # q)"
  shows "fst (authority (''//'' @ nl @ p)) = nl"
proof -
  have "p = [] \<or> \<not> \<not> netloc_delim (hd p)" using assms(2) by (auto simp: netloc_delim_def)
  with assms(1) have "takeWhile (\<lambda>c. \<not> netloc_delim c) (nl @ p) = nl"
    by (rule takeWhile_stop)
  then show ?thesis by (simp add: authority_def splitnetloc_def)
qed

section \<open>The Path Normalizer applied twice\<close>

lemma fix_dir_url_file:
  "fix_dir_url chk (''file://'' @ s) = Inr (''file://'' @ s) \<or> fix_dir_url chk (''file://'' @ s) = Inl ValueError"
proof (cases "urlsplit chk (''file://'' @ s)")
  case (Inl e)
  then show ?thesis using urlsplit_error [OF Inl] by (simp add: fix_dir_url_def)
next
  case (Inr r)
  then show ?thesis using urlsplit_file_scheme [OF Inr] by (simp add: fix_dir_url_def)
qed

lemma fix_dir_url_dir_result:
  assumes "urlsplit chk u = Inr r" and "scheme r = ''dir''"
  shows "\<exists>sfx. (sfx = [] \<or> sfx = ''/'') \<and> (sfx = [] \<longrightarrow> last (''file://'' @ netloc r @ path r) = CHR ''/'') \<and>
     fix_dir_url chk u = Inr (''file://'' @ netloc r @ path r @ sfx)"
  using assms by (auto simp: fix_dir_url_def Let_def)

lemma refix_with_netloc:
  assumes r: "urlsplit chk u = Inr r" and nl: "netloc r \<noteq> []"
    and sfx: "sfx = [] \<or> sfx = ''/''" and e: "sfx = [] \<longrightarrow> last (''file://'' @ netloc r @ path r) = CHR ''/''"
  shows "\<exists>r'. urlsplit chk (''file://'' @ netloc r @ path r @ sfx) = Inr r'"
proof -
  let ?v = "''file://'' @ netloc r @ path r @ sfx"
  have safe: "\<forall>c\<in>set (netloc r @ path r @ sfx). \<not> unsafe_url_byte c"
    using netloc_safe [OF r] path_safe [OF r] sfx by (auto simp: unsafe_url_byte_def)
  have c: "clean_url ?v = ?v" using clean_url_file [OF safe] by simp
  have s: "split_scheme ?v = (''file'', ''//'' @ netloc r @ path r @ sfx)"
    using split_scheme_file [of "''//'' @ netloc r @ path r @ sfx"] by simp
  have nd: "\<forall>c\<in>set (netloc r). \<not> netloc_delim c" using netloc_no_delim [OF r] by blast
  have p: "path r @ sfx = [] \<or> (\<exists>q. path r @ sfx = CHR ''/'' # q)"
  proof (cases "path r")
    case Nil
    have "last (netloc r) \<noteq> CHR ''/''" using nd nl last_in_set [OF nl] by (auto simp: netloc_delim_def)
    with Nil e nl sfx show ?thesis by auto
  next
    case (Cons a as)
    then show ?thesis using path_after_netloc [OF r nl] by auto
  qed
  have a: "fst (authority (''//'' @ netloc r @ (path r @ sfx))) = netloc r"
    by (rule authority_file [OF nd p])
  show ?thesis
    by (rule urlsplit_succeeds [where nl = "netloc r"])
       (use a c s urlsplit_accepts [OF r] in simp_all)
qed

text \<open>
  When \<open>fix_dir_url\<close> returns \<open>v\<close>, applying it to \<open>v\<close> returns \<open>v\<close> again or raises
  \<open>ValueError\<close>; it can raise only for a \<open>dir\<close> URL without an authority, whose path
  then becomes the authority of the rewritten \<open>file://\<close> URL.
\<close>

lemma fix_dir_url_again:
  assumes "fix_dir_url chk u = Inr v"
  shows "fix_dir_url chk v = Inr v \<or>
         (fix_dir_url chk v = Inl ValueError \<and>
          (\<exists>r. urlsplit chk u = Inr r \<and> scheme r = ''dir'' \<and> netloc r = []))"
proof -
  from assms obtain r where r: "urlsplit chk u = Inr r"
    by (cases "urlsplit chk u") (auto simp: fix_dir_url_def)
  show ?thesis
  proof (cases "scheme r = ''dir''")
    case False
    with r assms have "v = u" by (simp add: fix_dir_url_def)
    with assms show ?thesis by simp
  next
    case True
    from fix_dir_url_dir_result [OF r True] assms obtain sfx where
      sfx: "sfx = [] \<or> sfx = ''/''" "sfx = [] \<longrightarrow> last (''file://'' @ netloc r @ path r) = CHR ''/''"
      and v: "v = ''file://'' @ netloc r @ path r @ sfx" by auto
    show ?thesis
    proof (cases "netloc r = []")
      case True
      with r \<open>scheme r = ''dir''\<close> fix_dir_url_file [of chk "netloc r @ path r @ sfx"] v
      show ?thesis by auto
    next
      case False
      from refix_with_netloc [OF r False sfx] obtain r' where r': "urlsplit chk v = Inr r'"
        unfolding v by blast
      have "scheme r' = ''file''" using r' urlsplit_file_scheme unfolding v by blast
      with r' show ?thesis by (simp add: fix_dir_url_def)
    qed
  qed
qed

lemma refix_without_netloc:
  assumes r: "urlsplit chk u = Inr r"
    and p: "take 1 (path r) = ''/'' \<or> list_all no_bracket (path r)"
    and sfx: "sfx = [] \<or> sfx = ''/''"
  shows "\<exists>r'. urlsplit chk (''file://'' @ path r @ sfx) = Inr r'"
proof -
  define s where "s = path r @ sfx"
  define nl where "nl = fst (authority (''//'' @ s))"
  have safe: "\<forall>c\<in>set s. \<not> unsafe_url_byte c"
    using path_safe [OF r] sfx by (auto simp: s_def unsafe_url_byte_def)
  have c: "clean_url (''file://'' @ s) = ''file://'' @ s"
    by (rule clean_url_file [OF safe])
  have ss: "split_scheme (''file://'' @ s) = (''file'', ''//'' @ s)"
    using split_scheme_file [of "''//'' @ s"] by simp
  have nb: "list_all no_bracket nl"
  proof (cases "take 1 (path r) = ''/''")
    case True
    then obtain q where "s = CHR ''/'' # q"
      by (cases "path r") (auto simp: s_def)
    then have "nl = []"
      by (simp add: nl_def authority_def splitnetloc_def netloc_delim_def)
    then show ?thesis by simp
  next
    case False
    with p have "list_all no_bracket (path r)" by blast
    with sfx have "list_all no_bracket s"
      by (auto simp: s_def no_bracket_def)
    moreover have "set nl \<subseteq> set (''//'' @ s)"
      unfolding nl_def by (rule authority_subset(1))
    ultimately show ?thesis
      by (auto simp: list_all_iff no_bracket_def)
  qed
  then have b: "\<not> unbalanced_brackets nl" "\<not> has_brackets nl"
    by (auto simp: unbalanced_brackets_def has_brackets_def list_all_iff no_bracket_def)
  have "\<exists>r'. urlsplit chk (''file://'' @ s) = Inr r'"
    by (rule urlsplit_succeeds [where nl = nl]) (use b c ss in \<open>simp_all add: nl_def\<close>)
  then show ?thesis
    by (simp add: s_def)
qed

text \<open>
  Claim C9. For every URI string, applying \<open>fix_dir_url\<close> twice is the same as applying
  it once: the second application returns what the first returned, and when the first
  raises, so does the composition. A URI string is taken as \<open>uri_string\<close> has it, which
  holds for every URL with an authority and for every URI of RFC 3986.
\<close>

theorem fix_dir_url_idempotent:
  assumes "uri_string chk u"
  shows "(case fix_dir_url chk u of Inl e \<Rightarrow> Inl e | Inr v \<Rightarrow> fix_dir_url chk v)
           = fix_dir_url chk u"
proof (cases "fix_dir_url chk u")
  case (Inl e)
  then show ?thesis by simp
next
  case (Inr v)
  have "fix_dir_url chk v = Inr v"
  proof (rule ccontr)
    assume n: "fix_dir_url chk v \<noteq> Inr v"
    with fix_dir_url_again [OF Inr] obtain r where
      e: "fix_dir_url chk v = Inl ValueError" and r: "urlsplit chk u = Inr r"
      and d: "scheme r = ''dir''" and nl: "netloc r = []"
      by blast
    from assms r nl have p: "take 1 (path r) = ''/'' \<or> list_all no_bracket (path r)"
      by (simp add: uri_string_def)
    from fix_dir_url_dir_result [OF r d] Inr nl obtain sfx where
      sfx: "sfx = [] \<or> sfx = ''/''" and v: "v = ''file://'' @ path r @ sfx"
      by auto
    from refix_without_netloc [OF r p sfx] obtain r' where "urlsplit chk v = Inr r'"
      unfolding v by blast
    then have "fix_dir_url chk v \<noteq> Inl ValueError"
      by (simp add: fix_dir_url_def Let_def)
    with e show False by simp
  qed
  with Inr show ?thesis by simp
qed

theorem fix_dir_url_idempotent_witness:
  "uri_string accept_any ''dir://h/a/b'' \<and>
   fix_dir_url accept_any ''dir://h/a/b'' = Inr ''file://h/a/b/'' \<and>
   fix_dir_url accept_any ''file://h/a/b/'' = Inr ''file://h/a/b/''"
proof -
  have u: "uri_string accept_any ''dir://h/a/b''"
    by code_simp
  have h: "fix_dir_url accept_any ''dir://h/a/b'' = Inr ''file://h/a/b/''"
    by code_simp
  from fix_dir_url_idempotent [OF u] h u show ?thesis
    by simp
qed

text \<open>
  The condition is about strings that are no URIs: \<open>dir:[x\<close> has a square bracket in a
  path without authority; once gives \<open>file://[x/\<close>, which \<open>urlsplit\<close> refuses.
\<close>

lemma fix_dir_url_raw_bracket:
  "\<not> uri_string accept_any ''dir:[x'' \<and>
   fix_dir_url accept_any ''dir:[x'' = Inr ''file://[x/'' \<and>
   fix_dir_url accept_any ''file://[x/'' = Inl ValueError"
  by code_simp

section \<open>The classification of the log records\<close>

lemma split_on_no_sep: "sep \<notin> set s \<Longrightarrow> split_on sep s = [s]"
  by (induction s) auto

lemma split_on_append:
  "sep \<notin> set a \<Longrightarrow> split_on sep (a @ sep # b) = a # split_on sep b"
  by (induction a) auto

lemma rstrip_append:
  assumes "s \<noteq> []" and "\<not> isspace (last s)" and "list_all isspace ws"
  shows "rstrip (s @ ws) = s"
proof -
  have "dropWhile isspace (rev ws @ rev s) = dropWhile isspace (rev s)"
    using assms(3) by (intro dropWhile_append2) (auto simp: list_all_iff)
  moreover have "dropWhile isspace (rev s) = rev s"
    using assms(1,2) by (cases s rule: rev_cases) auto
  ultimately show ?thesis by (simp add: rstrip_def)
qed

lemma file_record_line:
  assumes "CHR '' '' \<notin> set uri" and "CHR '' '' \<notin> set tok" and "tok \<noteq> []"
    and "\<not> isspace (last tok)" and "list_all isspace ws"
  shows "file_record (uri @ '' '' @ tok @ ws) = [uri, tok]"
proof -
  have "rstrip ((uri @ '' '' @ tok) @ ws) = uri @ '' '' @ tok"
    using assms(3,4,5) by (intro rstrip_append) auto
  then show ?thesis
    using assms(1,2) by (simp add: file_record_def split_on_append split_on_no_sep)
qed

text \<open>
  Claim C1. A line \<open><uri> <direction>\<close> is a URI and a token without spaces, separated
  by one space and followed by whitespace (the line terminator). On such a line the
  classifier adds the URI to the inputs for \<open>IN\<close> and \<open>IN_DELETE\<close> only if it is not in
  the outputs; adds it to the outputs for \<open>OUT\<close>, whatever the sets hold; and for any
  other token adds it to the inputs only if it is not in the outputs, and to the outputs
  in any case. On the log \<open>A.txt OUT\<close>, \<open>A.txt IN\<close> the inputs are empty and the outputs
  are \<open>A.txt\<close>.
\<close>

theorem process_line_policy:
  assumes "CHR '' '' \<notin> set uri" and "CHR '' '' \<notin> set tok" and "tok \<noteq> []"
    and "\<not> isspace (last tok)" and "list_all isspace ws"
  shows "process_line (inputs, outputs) (uri @ '' '' @ tok @ ws) =
           (if tok = ''IN'' \<or> tok = ''IN_DELETE'' then
              ((if uri \<in> outputs then inputs else insert uri inputs), outputs)
            else if tok = ''OUT'' then (inputs, insert uri outputs)
            else ((if uri \<in> outputs then inputs else insert uri inputs), insert uri outputs))
         \<and> read_log [''A.txt OUT'' @ [CHR 0x0A], ''A.txt IN'' @ [CHR 0x0A]] = ({}, {''A.txt''})"
proof -
  have "read_log [''A.txt OUT'' @ [CHR 0x0A], ''A.txt IN'' @ [CHR 0x0A]] = ({}, {''A.txt''})"
    by code_simp
  then show ?thesis
    using file_record_line [OF assms] by auto
qed

theorem process_line_policy_witness:
  "process_line ({}, {''B.txt''}) (''A.txt'' @ '' '' @ ''INOUT'' @ [CHR 0x0A])
     = ({''A.txt''}, {''A.txt'', ''B.txt''})"
proof -
  have "CHR '' '' \<notin> set ''A.txt''" "CHR '' '' \<notin> set ''INOUT''" "''INOUT'' \<noteq> []"
    "\<not> isspace (last ''INOUT'')" "list_all isspace [CHR 0x0A]"
    by (simp_all add: isspace_def)
  from process_line_policy [OF this, of "{}" "{''B.txt''}"] show ?thesis
    by simp
qed

lemma process_line_record:
  "file_record line = [uri, tok] \<Longrightarrow>
     process_line (inputs, outputs) line =
       (if tok = ''OUT'' then inputs else if uri \<in> outputs then inputs else insert uri inputs,
        if tok = ''IN'' \<or> tok = ''IN_DELETE'' then outputs else insert uri outputs)"
  by auto

lemma process_line_skip:
  "\<forall>uri tok. file_record line \<noteq> [uri, tok] \<Longrightarrow> process_line st line = st"
  by (cases st) (auto split: list.splits)

lemma log_records_snoc_record:
  "file_record line = [uri, tok] \<Longrightarrow> log_records (ls @ [line]) = log_records ls @ [(uri, tok)]"
  by (simp add: log_records_def)

lemma log_records_snoc_skip:
  "\<forall>uri tok. file_record line \<noteq> [uri, tok] \<Longrightarrow> log_records (ls @ [line]) = log_records ls"
  by (auto simp: log_records_def split: list.splits)

lemma read_log_sets:
  "read_log ls = (inputs, outputs) \<Longrightarrow>
     (u \<in> inputs \<longleftrightarrow> (\<exists>t. first_token ls u = Some t \<and> t \<noteq> ''OUT'')) \<and>
     (u \<in> outputs \<longleftrightarrow> written ls u)"
proof (induction ls arbitrary: inputs outputs u rule: rev_induct)
  case Nil
  then show ?case
    by (simp add: read_log_def first_token_def written_def log_records_def)
next
  case (snoc line ls)
  obtain i0 o0 where s0: "read_log ls = (i0, o0)"
    by (cases "read_log ls")
  have ihi: "v \<in> i0 \<longleftrightarrow> (\<exists>t. first_token ls v = Some t \<and> t \<noteq> ''OUT'')" for v
    using snoc.IH [OF s0, of v] by (rule conjunct1)
  have iho: "v \<in> o0 \<longleftrightarrow> written ls v" for v
    using snoc.IH [OF s0, of v] by (rule conjunct2)
  from snoc.prems s0 have step: "process_line (i0, o0) line = (inputs, outputs)"
    by (simp add: read_log_def)
  show ?case
  proof (cases "\<exists>uri tok. file_record line = [uri, tok]")
    case False
    then have f: "\<forall>uri tok. file_record line \<noteq> [uri, tok]"
      by blast
    from step process_line_skip [OF f] have "inputs = i0" "outputs = o0"
      by simp_all
    moreover have "first_token (ls @ [line]) u = first_token ls u"
      "written (ls @ [line]) u = written ls u"
      by (simp_all add: first_token_def written_def log_records_snoc_skip [OF f])
    ultimately show ?thesis
      using ihi [of u] iho [of u] by simp
  next
    case True
    then obtain uri tok where ft: "file_record line = [uri, tok]"
      by blast
    have lr: "log_records (ls @ [line]) = log_records ls @ [(uri, tok)]"
      by (rule log_records_snoc_record [OF ft])
    have none: "\<not> written ls uri" if n: "first_token ls uri = None"
    proof
      assume "written ls uri"
      then obtain t where "(uri, t) \<in> set (log_records ls)"
        by (auto simp: written_def list_ex_iff)
      then have "uri \<in> fst ` set (log_records ls)"
        by (rule rev_image_eqI) simp
      with n show False
        by (simp add: first_token_def map_of_eq_None_iff)
    qed
    have fo: "written ls uri" if o: "first_token ls uri = Some ''OUT''"
    proof -
      from o have "(uri, ''OUT'') \<in> set (log_records ls)"
        unfolding first_token_def by (rule map_of_SomeD)
      then show ?thesis
        unfolding written_def list_ex_iff by (rule rev_bexI) simp
    qed
    have ft': "first_token (ls @ [line]) v =
        (case first_token ls v of Some t \<Rightarrow> Some t
         | None \<Rightarrow> if v = uri then Some tok else None)" for v
      by (simp add: first_token_def lr map_add_def split: option.splits)
    have w': "written (ls @ [line]) v \<longleftrightarrow>
        written ls v \<or> (v = uri \<and> tok \<noteq> ''IN'' \<and> tok \<noteq> ''IN_DELETE'')" for v
      unfolding written_def lr by (simp only: list_ex_append) (simp, blast)
    from step have io:
      "inputs = (if tok = ''OUT'' then i0 else if uri \<in> o0 then i0 else insert uri i0)"
      "outputs = (if tok = ''IN'' \<or> tok = ''IN_DELETE'' then o0 else insert uri o0)"
      unfolding process_line_record [OF ft] by simp_all
    have outs: "u \<in> outputs \<longleftrightarrow> written (ls @ [line]) u"
      unfolding io(2) w' [of u] using iho [of u] iho [of uri] by (cases "u = uri") simp_all
    have ins: "u \<in> inputs \<longleftrightarrow> (\<exists>t. first_token (ls @ [line]) u = Some t \<and> t \<noteq> ''OUT'')"
    proof (cases "u = uri")
      case False
      then have "u \<in> inputs \<longleftrightarrow> u \<in> i0"
        unfolding io(1) by simp
      moreover from False have "first_token (ls @ [line]) u = first_token ls u"
        unfolding ft' [of u] by (simp split: option.splits)
      ultimately show ?thesis
        using ihi [of u] by simp
    next
      case True
      show ?thesis
      proof (cases "first_token ls uri")
        case None
        from none [OF None] have "uri \<notin> o0"
          using iho [of uri] by simp
        moreover from None have "uri \<notin> i0"
          using ihi [of uri] by simp
        moreover from None have "first_token (ls @ [line]) uri = Some tok"
          unfolding ft' [of uri] by simp
        ultimately show ?thesis
          unfolding True io(1) by simp
      next
        case (Some t)
        then have f: "first_token (ls @ [line]) uri = Some t"
          unfolding ft' [of uri] by simp
        show ?thesis
        proof (cases "t = ''OUT''")
          case out: True
          from fo Some out have "uri \<in> o0"
            using iho [of uri] by simp
          moreover from Some out have "uri \<notin> i0"
            using ihi [of uri] by simp
          ultimately show ?thesis
            unfolding True io(1) f using out by simp
        next
          case False
          with Some have "uri \<in> i0"
            using ihi [of uri] by simp
          then have "uri \<in> inputs"
            unfolding io(1) by simp
          with False show ?thesis
            unfolding True f by simp
        qed
      qed
    qed
    from ins outs show ?thesis ..
  qed
qed

text \<open>
  Claim C3, as the code has it. After the classification a URI is in both sets exactly
  when its first record has a token other than \<open>OUT\<close> and one of its records has a token
  other than \<open>IN\<close> and \<open>IN_DELETE\<close>: the URIs with an \<open>INOUT\<close>-like token before any
  \<open>OUT\<close>, and the URIs that were read before a later record wrote them. A URI whose
  first record is \<open>OUT\<close>, or whose records are all \<open>IN\<close> or \<open>IN_DELETE\<close>, is in one set only.
\<close>

theorem read_log_both_sets:
  assumes "read_log ls = (inputs, outputs)"
  shows "(u \<in> inputs \<and> u \<in> outputs) \<longleftrightarrow>
           ((\<exists>t. first_token ls u = Some t \<and> t \<noteq> ''OUT'') \<and> written ls u)"
  using read_log_sets [OF assms, of u] by simp

theorem read_log_both_sets_witness:
  "read_log [''A.txt IN'' @ [CHR 0x0A], ''A.txt OUT'' @ [CHR 0x0A]] = ({''A.txt''}, {''A.txt''}) \<and>
   first_token [''A.txt IN'' @ [CHR 0x0A], ''A.txt OUT'' @ [CHR 0x0A]] ''A.txt'' = Some ''IN'' \<and>
   written [''A.txt IN'' @ [CHR 0x0A], ''A.txt OUT'' @ [CHR 0x0A]] ''A.txt''"
proof -
  have h: "read_log [''A.txt IN'' @ [CHR 0x0A], ''A.txt OUT'' @ [CHR 0x0A]]
             = ({''A.txt''}, {''A.txt''})"
    by code_simp
  have f: "first_token [''A.txt IN'' @ [CHR 0x0A], ''A.txt OUT'' @ [CHR 0x0A]] ''A.txt''
             = Some ''IN''"
    by code_simp
  from read_log_both_sets [OF h, of "''A.txt''"] f h show ?thesis
    by simp
qed

text \<open>
  Claim C3 as stated fails: on the log \<open>A.txt IN\<close>, \<open>A.txt OUT\<close> the URI is in both sets,
  and none of its records has an \<open>INOUT\<close>-like token.
\<close>

theorem read_log_in_then_out:
  "read_log [''A.txt IN'' @ [CHR 0x0A], ''A.txt OUT'' @ [CHR 0x0A]] = ({''A.txt''}, {''A.txt''}) \<and>
   log_records [''A.txt IN'' @ [CHR 0x0A], ''A.txt OUT'' @ [CHR 0x0A]]
     = [(''A.txt'', ''IN''), (''A.txt'', ''OUT'')]"
  by code_simp

section \<open>The Common-Path Resolver on concrete lists\<close>

text \<open>
  Claim C2, as the code has it. For the two files \<open>/data/x/f1\<close> and \<open>/data/y/f2\<close> the
  resolver returns the single prefix \<open>/data/\<close>: the common path of \<open>/data/x\<close> and
  \<open>/data/y/f2\<close> is \<open>/data\<close>, which is not the root, so it replaces the current prefix.
  The same holds for the \<open>file://\<close> URLs of the two paths.
\<close>

theorem get_common_paths_scenario:
  "get_common_paths chk [''/data/x/f1'', ''/data/y/f2''] = Inr [''/data/''] \<and>
   get_common_paths chk [''file://h/data/x/f1'', ''file://h/data/y/f2''] = Inr [''/data/'']"
  by code_simp

text \<open>
  Claim C2 as stated fails: the result is not the two prefixes \<open>/data/x/\<close> and \<open>/data/y/\<close>.
\<close>

theorem get_common_paths_scenario_not_two:
  "get_common_paths accept_any [''/data/x/f1'', ''/data/y/f2''] \<noteq> Inr [''/data/x/'', ''/data/y/'']"
  by code_simp

text \<open>
  Claim C4 (every returned prefix ends with the path separator) at two files in two
  top-level directories: the loop that adds the separator removes from the list it
  iterates over, so it never visits \<open>/b\<close>, and the resolver returns \<open>/b\<close> without
  the separator.
\<close>

theorem get_common_paths_missing_slash:
  "get_common_paths chk [''file://h/a/f'', ''file://h/b/g''] = Inr [''/b'', ''/a/'']"
  by code_simp

section \<open>The Log Parser on a log with two directories\<close>

text \<open>
  Claim C5 (every \<open>dir\<close> URI of the result lists is rewritten to end with the path
  separator) at a log that records two directories: the rewriting loop removes from the
  list it iterates over, so it never visits the second directory, which stays as it was
  in the log, and it visits the rewritten first one again, which ends with two separators.
\<close>

theorem process_accessed_files_two_dirs:
  "process_accessed_files chk ''h'' [''dir://h/a OUT'' @ [CHR 0x0A], ''dir://h/b OUT'' @ [CHR 0x0A]]
     = Inr ([], [''dir://h/a//'', ''dir://h/b''])"
  by code_simp

section \<open>The cross-role fix-up\<close>

lemma subseq_remove1: "subseq (remove1 x l) l"
  by (induction l) auto

lemma remove_inputs_subseq:
  "remove_inputs chk dirs fs l = Inr l' \<Longrightarrow> subseq l' l"
proof (induction fs arbitrary: l)
  case Nil
  then show ?case by simp
next
  case (Cons item rest)
  then obtain r where r: "urlsplit chk item = Inr r"
    by (cases "urlsplit chk item") auto
  let ?l1 = "if under_any dirs (path r) then remove1 item l else l"
  from Cons.prems r have "remove_inputs chk dirs rest ?l1 = Inr l'" by simp
  then have "subseq l' ?l1" by (rule Cons.IH)
  moreover have "subseq ?l1 l" by (simp add: subseq_remove1)
  ultimately show ?case by (rule subseq_order.trans)
qed

text \<open>
  Claim C10. When \<open>fix_in_files_at_out_dirs\<close> returns, the outputs list it returns is the
  one it was given, and the inputs list it returns is a subsequence of the one it was
  given: entries are only removed from it, none is added, rewritten or moved.
\<close>

theorem fix_in_files_outputs_unchanged:
  assumes "fix_in_files_at_out_dirs chk inputs_list outputs_list = Inr (ins, outs)"
  shows "outs = outputs_list \<and> subseq ins inputs_list"
  using assms remove_inputs_subseq
  by (auto simp: fix_in_files_at_out_dirs_def split: sum.splits if_splits)

theorem fix_in_files_outputs_unchanged_witness:
  "fix_in_files_at_out_dirs accept_any [''file://h/out/sub/file.txt'', ''file://h/x''] [''dir://h/out/'', ''file://h/y'']
     = Inr ([''file://h/x''], [''dir://h/out/'', ''file://h/y'']) \<and>
   subseq [''file://h/x''] [''file://h/out/sub/file.txt'', ''file://h/x'']"
proof -
  have h: "fix_in_files_at_out_dirs accept_any [''file://h/out/sub/file.txt'', ''file://h/x''] [''dir://h/out/'', ''file://h/y'']
     = Inr ([''file://h/x''], [''dir://h/out/'', ''file://h/y''])" by code_simp
  from fix_in_files_outputs_unchanged [OF h] h show ?thesis by simp
qed

lemma url_path_Inr: "urlsplit chk item = Inr r \<Longrightarrow> url_path chk item = path r"
  by (simp add: url_path_def)

lemma is_dir_Inr: "urlsplit chk item = Inr r \<Longrightarrow> is_dir chk item = (scheme r = ''dir'')"
  by (simp add: is_dir_def)








lemma dir_before_file:
  fixes x y :: string
  assumes "prefix ''dir://'' x" and "prefix ''file://'' y"
  shows "x < y"
proof -
  from assms obtain a b where "x = ''dir://'' @ a" "y = ''file://'' @ b"
    by (auto simp: prefix_def)
  then show ?thesis by simp
qed

lemma is_dir_file_url: "\<not> is_dir chk (''file://'' @ s)"
proof (cases "urlsplit chk (''file://'' @ s)")
  case (Inl e)
  then show ?thesis by (simp add: is_dir_def)
next
  case (Inr r)
  with urlsplit_file_scheme [OF Inr] show ?thesis by (simp add: is_dir_def)
qed

lemma sorted_dirs_first:
  assumes "sorted l"
    and "list_all (\<lambda>x. prefix ''file://'' x \<or> (prefix ''dir://'' x \<and> is_dir chk x)) l"
  shows "dirs_first chk l"
  using assms
proof (induction l)
  case Nil
  then show ?case by (simp add: dirs_first_def)
next
  case (Cons x l)
  then have ih: "dirs_first chk l" by simp
  show ?case
  proof (cases "is_dir chk x")
    case True
    with ih show ?thesis by (simp add: dirs_first_def)
  next
    case False
    with Cons.prems(2) have fx: "prefix ''file://'' x" by auto
    have "\<not> is_dir chk y" if y: "y \<in> set l" for y
    proof
      assume d: "is_dir chk y"
      from y Cons.prems(2) have "prefix ''file://'' y \<or> prefix ''dir://'' y"
        by (auto simp: list_all_iff)
      moreover have "\<not> prefix ''file://'' y"
        using d is_dir_file_url [of chk] by (auto simp: prefix_def)
      ultimately have "y < x" using dir_before_file fx by blast
      moreover from y Cons.prems(1) have "x \<le> y" by simp
      ultimately show False by simp
    qed
    with False show ?thesis by (simp add: dirs_first_def list_all_iff)
  qed
qed



section \<open>The Dataset Reconciler\<close>

lemma strict_prefix_less:
  fixes xs ys :: string
  assumes "prefix xs ys" and "xs \<noteq> ys"
  shows "xs < ys"
proof -
  from assms(1) obtain zs where zs: "ys = xs @ zs"
    by (auto simp: prefix_def)
  with assms(2) have "zs \<noteq> []" by auto
  then obtain z zs' where "zs = z # zs'" by (cases zs) auto
  with zs show ?thesis
    by (simp add: list_less_def lexord_append_rightI)
qed

lemma remove_nested_filter:
  assumes "\<forall>k\<in>set kept. \<not> nested_entry chk dirs k"
    and "remove_nested chk dirs rest (kept @ rest) = Inr res"
  shows "res = kept @ filter (\<lambda>item. \<not> nested_entry chk dirs item) rest"
  using assms
proof (induction rest arbitrary: kept)
  case Nil
  then show ?case by simp
next
  case (Cons item rest)
  then obtain r where r: "urlsplit chk item = Inr r"
    by (cases "urlsplit chk item") auto
  have ne: "nested_entry chk dirs item = nested_in dirs (path r)"
    by (simp add: nested_entry_def url_path_Inr [OF r])
  show ?case
  proof (cases "nested_in dirs (path r)")
    case True
    with ne Cons.prems(1) have "item \<notin> set kept" by auto
    then have "remove1 item (kept @ item # rest) = kept @ rest"
      by (simp add: remove1_append)
    with Cons.prems(2) r True have "remove_nested chk dirs rest (kept @ rest) = Inr res"
      by simp
    from Cons.IH [OF Cons.prems(1) this] ne True show ?thesis by simp
  next
    case False
    with Cons.prems(2) r have "remove_nested chk dirs rest ((kept @ [item]) @ rest) = Inr res"
      by simp
    moreover have "\<forall>k\<in>set (kept @ [item]). \<not> nested_entry chk dirs k"
      using Cons.prems(1) ne False by simp
    ultimately have "res = (kept @ [item]) @ filter (\<lambda>item. \<not> nested_entry chk dirs item) rest"
      by (rule Cons.IH [rotated])
    with ne False show ?thesis by simp
  qed
qed

lemma topmost_dirs_found:
  "topmost_dirs chk l acc = Inr (dirs, ff) \<Longrightarrow> ff = (\<not> list_all (is_dir chk) l)"
proof (induction l arbitrary: acc)
  case Nil
  then show ?case by simp
next
  case (Cons item rest)
  then obtain r where r: "urlsplit chk item = Inr r"
    by (cases "urlsplit chk item") auto
  with Cons show ?case
    by (cases "scheme r = ''dir''") (auto simp: is_dir_Inr)
qed

lemma topmost_dirs_subset:
  "topmost_dirs chk l acc = Inr (dirs, ff) \<Longrightarrow>
     set acc \<subseteq> set dirs \<and> set dirs \<subseteq> set acc \<union> set (leading_dir_paths chk l)"
proof (induction l arbitrary: acc)
  case Nil
  then show ?case by (simp add: leading_dir_paths_def)
next
  case (Cons item rest)
  then obtain r where r: "urlsplit chk item = Inr r"
    by (cases "urlsplit chk item") auto
  show ?case
  proof (cases "scheme r = ''dir''")
    case True
    let ?acc = "if path r \<notin> set acc \<and> \<not> list_ex (\<lambda>d. prefix d (path r)) acc
                then acc @ [path r] else acc"
    from Cons.prems r True have "topmost_dirs chk rest ?acc = Inr (dirs, ff)" by simp
    from Cons.IH [OF this] r True show ?thesis
      by (auto simp: leading_dir_paths_def is_dir_Inr url_path_Inr split: if_splits)
  next
    case False
    with Cons.prems r show ?thesis by (simp add: leading_dir_paths_def is_dir_Inr)
  qed
qed

lemma topmost_dirs_cover:
  "topmost_dirs chk l acc = Inr (dirs, ff) \<Longrightarrow> p \<in> set (leading_dir_paths chk l) \<Longrightarrow>
     \<exists>d\<in>set dirs. prefix d p"
proof (induction l arbitrary: acc)
  case Nil
  then show ?case by (simp add: leading_dir_paths_def)
next
  case (Cons item rest)
  then obtain r where r: "urlsplit chk item = Inr r"
    by (cases "urlsplit chk item") auto
  show ?case
  proof (cases "scheme r = ''dir''")
    case True
    let ?acc = "if path r \<notin> set acc \<and> \<not> list_ex (\<lambda>d. prefix d (path r)) acc
                then acc @ [path r] else acc"
    from Cons.prems r True have t: "topmost_dirs chk rest ?acc = Inr (dirs, ff)" by simp
    from Cons.prems(2) r True have "p = path r \<or> p \<in> set (leading_dir_paths chk rest)"
      by (auto simp: leading_dir_paths_def is_dir_Inr url_path_Inr)
    then show ?thesis
    proof
      assume p: "p = path r"
      have "\<exists>d\<in>set ?acc. prefix d p" using p by (auto simp: list_ex_iff)
      with topmost_dirs_subset [OF t] show ?thesis by blast
    next
      assume "p \<in> set (leading_dir_paths chk rest)"
      with Cons.IH [OF t] show ?thesis by blast
    qed
  next
    case False
    with Cons.prems r show ?thesis by (simp add: leading_dir_paths_def is_dir_Inr)
  qed
qed

lemma topmost_dirs_antichain:
  assumes "topmost_dirs chk l acc = Inr (dirs, ff)"
    and "sorted (leading_dir_paths chk l)"
    and "\<forall>a\<in>set acc. \<forall>p\<in>set (leading_dir_paths chk l). a \<le> p"
    and "\<forall>a\<in>set acc. \<not> nested_in acc a"
  shows "\<forall>d\<in>set dirs. \<not> nested_in dirs d"
  using assms
proof (induction l arbitrary: acc)
  case Nil
  then show ?case by simp
next
  case (Cons item rest)
  then obtain r where r: "urlsplit chk item = Inr r"
    by (cases "urlsplit chk item") auto
  show ?case
  proof (cases "scheme r = ''dir''")
    case True
    let ?acc = "if path r \<notin> set acc \<and> \<not> list_ex (\<lambda>d. prefix d (path r)) acc
                then acc @ [path r] else acc"
    from Cons.prems(1) r True have t: "topmost_dirs chk rest ?acc = Inr (dirs, ff)" by simp
    have l: "leading_dir_paths chk (item # rest) = path r # leading_dir_paths chk rest"
      using r True by (simp add: leading_dir_paths_def is_dir_Inr url_path_Inr)
    have s: "sorted (leading_dir_paths chk rest)" using Cons.prems(2) l by simp
    have b: "\<forall>a\<in>set ?acc. \<forall>p\<in>set (leading_dir_paths chk rest). a \<le> p"
      using Cons.prems(2,3) l by auto
    have a: "\<forall>a\<in>set ?acc. \<not> nested_in ?acc a"
    proof (cases "path r \<notin> set acc \<and> \<not> list_ex (\<lambda>d. prefix d (path r)) acc")
      case False
      then have "?acc = acc" by auto
      then show ?thesis using Cons.prems(4) by (simp only:)
    next
      case new: True
      have le: "\<forall>a\<in>set acc. a \<le> path r" using Cons.prems(3) l by simp
      have "\<not> nested_in (acc @ [path r]) (path r)"
        using new by (auto simp: nested_in_def list_ex_iff)
      moreover have "\<not> nested_in (acc @ [path r]) a" if "a \<in> set acc" for a
      proof -
        have "\<not> nested_in acc a" using Cons.prems(4) that by blast
        moreover have "\<not> (a \<noteq> path r \<and> prefix (path r) a)"
          using strict_prefix_less [of "path r" a] le that by auto
        ultimately show ?thesis by (auto simp: nested_in_def list_ex_iff)
      qed
      ultimately show ?thesis using new by auto
    qed
    show ?thesis by (rule Cons.IH [OF t s b a])
  next
    case False
    with Cons.prems r show ?thesis by simp
  qed
qed

lemma erase_nested_result:
  assumes "erase_nested chk l = Inr res"
  shows "\<exists>dirs. topmost_dirs chk l [] = Inr (dirs, \<not> list_all (is_dir chk) l) \<and>
      res = (if list_all (is_dir chk) l then l
             else filter (\<lambda>item. \<not> nested_entry chk dirs item) l)"
proof -
  from assms obtain dirs ff where t: "topmost_dirs chk l [] = Inr (dirs, ff)"
    by (auto simp: erase_nested_def split: sum.splits)
  have ff: "ff = (\<not> list_all (is_dir chk) l)" by (rule topmost_dirs_found [OF t])
  show ?thesis
  proof (cases ff)
    case False
    with assms t ff show ?thesis by (auto simp: erase_nested_def)
  next
    case True
    with assms t have "remove_nested chk dirs l ([] @ l) = Inr res"
      by (simp add: erase_nested_def)
    then have "res = [] @ filter (\<lambda>item. \<not> nested_entry chk dirs item) l"
      by (rule remove_nested_filter [rotated]) simp
    with t ff True show ?thesis by auto
  qed
qed

text \<open>
  What the reconciler returns. \<open>merged\<close> is the list after the declared entries were
  added; the reconciler sorts it and collects the prefixes \<open>dirs\<close> from the \<open>dir\<close> items at
  its head. When the sorted list holds an item that is not a \<open>dir\<close> item, the result is
  the sorted list without the entries whose path is a strict extension of a collected
  prefix, files and directories alike. When it holds \<open>dir\<close> items only, the removal is
  skipped and the result is the sorted list as it is.
\<close>

lemma add_manual_datasets_prunes:
  assumes "add_manual_datasets chk probe hostname declared data_list = Inr res"
  shows "\<exists>merged dirs.
      add_declared probe hostname declared data_list = Inr merged \<and>
      topmost_dirs chk (sort merged) [] = Inr (dirs, \<not> list_all (is_dir chk) (sort merged)) \<and>
      set dirs \<subseteq> set (leading_dir_paths chk (sort merged)) \<and>
      (\<forall>p\<in>set (leading_dir_paths chk (sort merged)). \<exists>d\<in>set dirs. prefix d p) \<and>
      res = (if list_all (is_dir chk) (sort merged) then sort merged
             else filter (\<lambda>item. \<not> nested_entry chk dirs item) (sort merged)) \<and>
      (sorted (leading_dir_paths chk (sort merged)) \<longrightarrow>
         (\<forall>item\<in>set (sort merged). url_path chk item \<in> set dirs \<longrightarrow> item \<in> set res))"
proof -
  from assms obtain merged where m: "add_declared probe hostname declared data_list = Inr merged"
    and e: "erase_nested chk (sort merged) = Inr res"
    by (auto simp: add_manual_datasets_def split: sum.splits)
  let ?l = "sort merged"
  from erase_nested_result [OF e] obtain dirs where
    t: "topmost_dirs chk ?l [] = Inr (dirs, \<not> list_all (is_dir chk) ?l)"
    and r: "res = (if list_all (is_dir chk) ?l then ?l
                   else filter (\<lambda>item. \<not> nested_entry chk dirs item) ?l)"
    by blast
  have s: "set dirs \<subseteq> set (leading_dir_paths chk ?l)"
    using topmost_dirs_subset [OF t] by simp
  have c: "\<forall>p\<in>set (leading_dir_paths chk ?l). \<exists>d\<in>set dirs. prefix d p"
    using topmost_dirs_cover [OF t] by blast
  have k: "sorted (leading_dir_paths chk ?l) \<longrightarrow>
         (\<forall>item\<in>set ?l. url_path chk item \<in> set dirs \<longrightarrow> item \<in> set res)"
  proof (intro impI ballI)
    fix item
    assume so: "sorted (leading_dir_paths chk ?l)" and i: "item \<in> set ?l"
      and d: "url_path chk item \<in> set dirs"
    have "\<forall>d\<in>set dirs. \<not> nested_in dirs d"
      by (rule topmost_dirs_antichain [OF t so]) simp_all
    with d have "\<not> nested_entry chk dirs item" by (simp add: nested_entry_def)
    with i r show "item \<in> set res" by simp
  qed
  from m t s c r k show ?thesis by blast
qed

text \<open>
  Claim C8 (every entry, file or directory, whose path is a strict extension of a
  collected prefix is removed) at a list of two directories, one inside the other: the
  prefix \<open>/a/\<close> is collected, and the directory \<open>/a/b/\<close> under it stays in the result,
  because the removal runs only when the list holds a file. With one file added to the
  same list, which has nothing to do with either directory, \<open>/a/b/\<close> is removed.
\<close>

theorem add_manual_datasets_nested_dir_kept:
  "add_manual_datasets accept_any nothing_declared ''h'' [] [''dir://h/a/'', ''dir://h/a/b/'']
     = Inr [''dir://h/a/'', ''dir://h/a/b/''] \<and>
   topmost_dirs accept_any [''dir://h/a/'', ''dir://h/a/b/''] [] = Inr ([''/a/''], False) \<and>
   add_manual_datasets accept_any nothing_declared ''h'' []
       [''dir://h/a/'', ''dir://h/a/b/'', ''file://h/zzz'']
     = Inr [''dir://h/a/'', ''file://h/zzz'']"
  by code_simp

section \<open>The Common-Path Resolver on the files of one directory\<close>

lemma dir_path_snoc: "dir_path comps @ ''/'' @ name = dir_path (comps @ [name])"
  by (simp add: dir_path_def)

lemma dir_path_Cons: "dir_path (c # cs) = CHR ''/'' # c @ dir_path cs"
  by (simp add: dir_path_def)

lemma plain_name_chars: "plain_name c \<Longrightarrow> x \<in> set c \<Longrightarrow> plain_char x"
  by (simp add: plain_name_def list_all_iff)

lemma dir_path_chars:
  "list_all plain_name cs \<Longrightarrow> x \<in> set (dir_path cs) \<Longrightarrow> x = CHR ''/'' \<or> plain_char x"
  by (induction cs) (auto simp: dir_path_def dest: plain_name_chars)

lemma no_slash: "plain_name c \<Longrightarrow> slash \<notin> set c"
  by (auto simp: slash_def plain_name_def plain_char_def netloc_delim_def list_all_iff)

lemma split_on_name_dir_path:
  "slash \<notin> set c \<Longrightarrow> list_all plain_name cs \<Longrightarrow> split_on slash (c @ dir_path cs) = c # cs"
proof (induction cs arbitrary: c)
  case Nil
  then show ?case by (simp add: dir_path_def split_on_no_sep)
next
  case (Cons d cs)
  from Cons.prems(2) have d: "slash \<notin> set d" and cs: "list_all plain_name cs"
    by (simp_all add: no_slash)
  have "c @ dir_path (d # cs) = c @ slash # (d @ dir_path cs)"
    by (simp add: dir_path_Cons slash_def)
  then show ?case
    using Cons.prems(1) Cons.IH [OF d cs] by (simp add: split_on_append)
qed

lemma split_on_dir_path:
  "list_all plain_name cs \<Longrightarrow> split_on slash (dir_path cs) = [] # cs"
  using split_on_name_dir_path [of "[]" cs] by simp

lemma path_parts_dir_path:
  assumes "list_all plain_name cs"
  shows "path_parts (dir_path cs) = cs"
proof -
  have "filter (\<lambda>c. c \<noteq> [] \<and> c \<noteq> ''.'') cs = cs"
    using assms by (auto simp: filter_id_conv list_all_iff plain_name_def)
  then show ?thesis
    by (simp add: path_parts_def split_on_dir_path [OF assms])
qed

lemma path_parts_root: "path_parts ''/'' = []"
  by (simp add: path_parts_def slash_def)

lemma path_root_dir_path:
  assumes "list_all plain_name cs" and "cs \<noteq> []"
  shows "path_root (dir_path cs) = ''/''"
proof -
  from assms obtain c cs' where cs: "cs = c # cs'" by (cases cs) auto
  with assms(1) have "plain_name c" by simp
  then obtain x xs where c: "c = x # xs" and x: "x \<noteq> slash"
    using no_slash [of c] by (cases c) (auto simp: plain_name_def)
  have "dir_path cs = slash # x # (xs @ dir_path cs')"
    by (simp add: cs c dir_path_Cons slash_def)
  with x show ?thesis by (simp add: path_root_def slash_def)
qed

lemma join_dir_path: "cs \<noteq> [] \<Longrightarrow> ''/'' @ join cs = dir_path cs"
  by (induction cs rule: join.induct) (simp_all add: dir_path_def)

lemma path_str_root: "path_str ''/'' cs = the_dir cs"
  using join_dir_path [of cs] by (cases "cs = []") (simp_all add: path_str_def the_dir_def)

lemma parent0_file:
  assumes "list_all plain_name comps" and "plain_name name"
  shows "parent0 (dir_path comps @ ''/'' @ name) = Inr (the_dir comps)"
proof -
  have a: "list_all plain_name (comps @ [name])" using assms by simp
  have "path_parts (dir_path (comps @ [name])) = comps @ [name]"
    by (rule path_parts_dir_path [OF a])
  moreover have "path_root (dir_path (comps @ [name])) = ''/''"
    by (rule path_root_dir_path [OF a]) simp
  ultimately show ?thesis
    unfolding dir_path_snoc by (simp add: parent0_def path_str_root)
qed

lemma path_parts_the_dir: "list_all plain_name comps \<Longrightarrow> path_parts (the_dir comps) = comps"
  by (simp add: the_dir_def path_parts_root path_parts_dir_path)

lemma common_prefix_commute: "common_prefix a b = common_prefix b a"
  by (induction a b rule: common_prefix.induct) (auto split: list.splits)

lemma common_prefix_append: "common_prefix (xs @ ys) xs = xs"
  by (induction xs) auto

lemma common_prefix_min_max:
  fixes a b :: "string list"
  shows "common_prefix (min a b) (max a b) = common_prefix a b"
  using common_prefix_commute [of a b] by (auto simp: min_def max_def)

lemma take1_dir_path: "take 1 (dir_path comps @ ''/'' @ name) = ''/''"
  by (cases comps) (simp_all add: dir_path_def)

lemma take1_the_dir: "take 1 (the_dir comps) = ''/''"
  by (cases comps) (simp_all add: the_dir_def dir_path_def)

lemma commonpath_file:
  assumes "list_all plain_name comps" and "plain_name name"
  shows "commonpath (dir_path comps @ ''/'' @ name) (the_dir comps) = Inr (the_dir comps)"
proof -
  define p where "p = dir_path comps @ ''/'' @ name"
  define D where "D = the_dir comps"
  have a: "list_all plain_name (comps @ [name])"
    using assms by simp
  have pp: "path_parts p = comps @ [name]"
    unfolding p_def dir_path_snoc by (rule path_parts_dir_path [OF a])
  have pd: "path_parts D = comps"
    unfolding D_def by (rule path_parts_the_dir [OF assms(1)])
  have t1: "take 1 p = ''/''"
    unfolding p_def by (rule take1_dir_path)
  have t2: "take 1 D = ''/''"
    unfolding D_def by (rule take1_the_dir)
  have j: "''/'' @ join comps = D"
    unfolding D_def using path_str_root [of comps]
    by (cases "comps = []") (simp_all add: path_str_def the_dir_def)
  have "commonpath p D = Inr D"
    unfolding commonpath_def Let_def t1 t2 pp pd common_prefix_min_max common_prefix_append
    using j by simp
  then show ?thesis
    unfolding p_def D_def .
qed

lemma slash_plain: "\<not> unsafe_url_byte (CHR ''/'')"
  by (simp add: unsafe_url_byte_def)

lemma authority_plain:
  assumes "\<forall>c\<in>set h. \<not> netloc_delim c" and "p = CHR ''/'' # q"
  shows "authority (''//'' @ h @ p) = (h, p)"
proof -
  have "takeWhile (\<lambda>c. \<not> netloc_delim c) (h @ p) = h"
    using assms by (induction h) (auto simp: netloc_delim_def)
  moreover have "dropWhile (\<lambda>c. \<not> netloc_delim c) (h @ p) = p"
    using assms by (induction h) (auto simp: netloc_delim_def)
  ultimately show ?thesis
    by (simp add: authority_def splitnetloc_def)
qed

lemma partition1_absent: "c \<notin> set s \<Longrightarrow> partition1 c s = (s, [])"
  by (simp add: partition1_def)

lemma file_path_chars:
  assumes "list_all plain_name comps" and "plain_name name" and "x \<in> set (dir_path comps @ ''/'' @ name)"
  shows "x = CHR ''/'' \<or> plain_char x"
  using assms dir_path_chars [of "comps @ [name]" x] unfolding dir_path_snoc by simp

lemma file_path_starts: "\<exists>q. dir_path comps @ ''/'' @ name = CHR ''/'' # q"
  by (cases comps) (simp_all add: dir_path_def)

lemma urlsplit_file_url:
  assumes "list_all plain_name comps" and "plain_host h" and "plain_name name"
  shows "urlsplit chk (''file://'' @ h @ dir_path comps @ ''/'' @ name) =
           Inr \<lparr>scheme = ''file'', netloc = h, path = dir_path comps @ ''/'' @ name,
                query = [], fragment = []\<rparr>"
proof -
  define p where "p = dir_path comps @ ''/'' @ name"
  define R where "R = ''//'' @ h @ p"
  define U where "U = ''file:'' @ R"
  have pc: "x = CHR ''/'' \<or> plain_char x" if "x \<in> set p" for x
    using file_path_chars [OF assms(1,3)] that unfolding p_def by blast
  have hc: "plain_char x \<and> x \<noteq> CHR ''['' \<and> x \<noteq> CHR '']''" if "x \<in> set h" for x
    using assms(2) that by (simp add: plain_host_def list_all_iff)
  have safe: "\<forall>c\<in>set (h @ p). \<not> unsafe_url_byte c"
    using pc hc slash_plain by (auto simp: plain_char_def)
  have c: "clean_url U = U"
    using clean_url_file [OF safe] by (simp add: U_def R_def)
  have s: "split_scheme U = (''file'', R)"
    unfolding U_def by (rule split_scheme_file)
  obtain q where q: "p = CHR ''/'' # q"
    using file_path_starts [of comps name] unfolding p_def by blast
  have a: "authority R = (h, p)"
    unfolding R_def by (rule authority_plain [OF _ q]) (use hc in \<open>auto simp: plain_char_def\<close>)
  have b1: "\<not> unbalanced_brackets h"
    using hc by (auto simp: unbalanced_brackets_def)
  have b2: "\<not> has_brackets h"
    using hc by (auto simp: has_brackets_def)
  have f: "partition1 (CHR ''#'') p = (p, [])"
    by (rule partition1_absent) (use pc in \<open>auto simp: plain_char_def netloc_delim_def\<close>)
  have g: "partition1 (CHR ''?'') p = (p, [])"
    by (rule partition1_absent) (use pc in \<open>auto simp: plain_char_def netloc_delim_def\<close>)
  have "urlsplit chk U =
          Inr \<lparr>scheme = ''file'', netloc = h, path = p, query = [], fragment = []\<rparr>"
    unfolding urlsplit_def c s by (simp add: a b1 b2 f g)
  then show ?thesis
    by (simp add: U_def R_def p_def)
qed

lemma the_dir_not_root:
  assumes "list_all plain_name comps" and "comps \<noteq> []"
  shows "the_dir comps \<noteq> ''/''" and "the_dir comps \<noteq> []" and "last (the_dir comps) \<noteq> CHR ''/''"
proof -
  from assms obtain cs c where cs: "comps = cs @ [c]" by (cases comps rule: rev_cases) auto
  with assms(1) have c: "plain_name c" by simp
  then have ne: "c \<noteq> []"
    by (simp add: plain_name_def)
  then have "last c \<in> set c"
    by (rule last_in_set)
  with no_slash [OF c] have l: "last c \<noteq> CHR ''/''"
    by (auto simp: slash_def)
  have d: "the_dir comps = dir_path cs @ ''/'' @ c"
    using assms(2) by (simp add: the_dir_def cs dir_path_def)
  from ne show "the_dir comps \<noteq> []" unfolding d by simp
  from ne l show "last (the_dir comps) \<noteq> CHR ''/''" unfolding d by simp
  then show "the_dir comps \<noteq> ''/''" by auto
qed

lemma append_new_idem: "append_new x (append_new x l) = append_new x l"
  by (simp add: append_new_def)

lemma common_loop_same_dir:
  assumes "list_all plain_name comps" and "list_all plain_file files"
  shows "common_loop chk (map (file_url comps) files) (the_dir comps) lcp =
           Inr (the_dir comps, if comps = [] \<and> files \<noteq> [] then append_new ''/'' lcp else lcp)"
  using assms(2)
proof (induction files arbitrary: lcp)
  case Nil
  then show ?case by simp
next
  case (Cons f fs)
  obtain h name where f: "f = (h, name)" by (cases f)
  with Cons.prems have h: "plain_host h" and n: "plain_name name" and fs: "list_all plain_file fs"
    by (simp_all add: plain_file_def)
  define p where "p = dir_path comps @ ''/'' @ name"
  have u: "urlsplit chk (file_url comps f) =
      Inr \<lparr>scheme = ''file'', netloc = h, path = p, query = [], fragment = []\<rparr>"
    unfolding f file_url_def p_def using urlsplit_file_url [OF assms(1) h n] by simp
  have cp: "commonpath p (the_dir comps) = Inr (the_dir comps)"
    unfolding p_def by (rule commonpath_file [OF assms(1) n])
  have par: "parent0 p = Inr (the_dir comps)"
    unfolding p_def by (rule parent0_file [OF assms(1) n])
  show ?case
  proof (cases "comps = []")
    case True
    then have r: "the_dir comps = ''/''" by (simp add: the_dir_def)
    have "common_loop chk (map (file_url comps) (f # fs)) (the_dir comps) lcp
            = common_loop chk (map (file_url comps) fs) (the_dir comps) (append_new ''/'' lcp)"
      using u cp par r by simp
    also have "\<dots> = Inr (the_dir comps, append_new ''/'' lcp)"
      using Cons.IH [OF fs, of "append_new ''/'' lcp"] True by (simp add: append_new_idem)
    finally show ?thesis using True by simp
  next
    case False
    have "common_loop chk (map (file_url comps) (f # fs)) (the_dir comps) lcp
            = common_loop chk (map (file_url comps) fs) (the_dir comps) lcp"
      using u cp the_dir_not_root(1) [OF assms(1) False] by simp
    then show ?thesis
      using Cons.IH [OF fs, of lcp] False by simp
  qed
qed

lemma end_with_slash_done: "end_with_slash 1 [d] = Inr [d]"
  by (subst end_with_slash.simps) simp

lemma end_with_slash_single:
  "d \<noteq> [] \<Longrightarrow> end_with_slash 0 [d] = Inr [if last d \<noteq> CHR ''/'' then d @ ''/'' else d]"
  by (subst end_with_slash.simps) (simp add: end_with_slash_done)

text \<open>
  Claim C6. A list of \<open>file\<close> URLs whose paths lie in one directory is the list of
  \<open>file://host/c1/.../cn/name\<close> for one list \<open>comps\<close> of directory names and, for each
  file, a host and a name (not every list need have the same host). On every such list
  with at least one file the resolver returns exactly one prefix, the directory with its
  trailing separator: \<open>/c1/.../cn/\<close>, and \<open>/\<close> for the files of the root. The order of
  the list plays no part, so this holds for the sorted lists in particular.
\<close>

theorem get_common_paths_same_dir:
  assumes "list_all plain_name comps" and "files \<noteq> []" and "list_all plain_file files"
  shows "get_common_paths chk (map (file_url comps) files) = Inr [dir_path comps @ ''/'']"
proof -
  from assms(2) obtain f fs where files: "files = f # fs" by (cases files) auto
  obtain h name where f: "f = (h, name)" by (cases f)
  with assms(3) files have h: "plain_host h" and n: "plain_name name"
    and fs: "list_all plain_file fs"
    by (simp_all add: plain_file_def)
  define p where "p = dir_path comps @ ''/'' @ name"
  define rest where "rest = map (file_url comps) fs"
  define first_file where "first_file = file_url comps f"
  have u: "urlsplit chk first_file =
      Inr \<lparr>scheme = ''file'', netloc = h, path = p, query = [], fragment = []\<rparr>"
    unfolding first_file_def f file_url_def p_def using urlsplit_file_url [OF assms(1) h n] by simp
  have par: "parent0 p = Inr (the_dir comps)"
    unfolding p_def by (rule parent0_file [OF assms(1) n])
  have ld: "leading_dirs chk (first_file # rest) [] = Inr ([], first_file # rest)"
    using u by simp
  have loop: "common_loop chk rest (the_dir comps) [] =
      Inr (the_dir comps, if comps = [] \<and> fs \<noteq> [] then append_new ''/'' [] else [])"
    unfolding rest_def by (rule common_loop_same_dir [OF assms(1) fs])
  have fin: "end_with_slash 0
      (append_new (the_dir comps) (if comps = [] \<and> fs \<noteq> [] then append_new ''/'' [] else []))
      = Inr [dir_path comps @ ''/'']"
  proof (cases "comps = []")
    case True
    then show ?thesis
      by (simp add: the_dir_def append_new_def dir_path_def end_with_slash_single)
  next
    case False
    with the_dir_not_root [OF assms(1) False] show ?thesis
      by (simp add: append_new_def end_with_slash_single the_dir_def)
  qed
  have "get_common_paths chk (first_file # rest) = Inr [dir_path comps @ ''/'']"
    unfolding get_common_paths_def using ld u par loop fin by simp
  then show ?thesis
    by (simp add: files first_file_def rest_def)
qed

theorem get_common_paths_same_dir_witness:
  "get_common_paths accept_any [''file://h/data/x/f1'', ''file://h/data/x/f2'']
     = Inr [''/data/x/'']"
proof -
  have a: "list_all plain_name [''data'', ''x'']"
    by code_simp
  have b: "[(''h'', ''f1''), (''h'', ''f2'')] \<noteq> []"
    by simp
  have c: "list_all plain_file [(''h'', ''f1''), (''h'', ''f2'')]"
    by code_simp
  from get_common_paths_same_dir [OF a b c, of accept_any] show ?thesis
    by (simp add: file_url_def dir_path_def)
qed

end
